theory Spec2Isabelle
  imports Complex_Main
begin

section \<open>The similarity engine of \<^verbatim>\<open>src/lib/plagiarism.ts\<close>\<close>

text \<open>
  A shallow embedding of the text normaliser, the sentence segmenter, the similarity
  scorer, the segment matcher, the segment merger and the orchestrator.

  Modelling conventions.
  \<^item> A JavaScript string is a \<^typ>\<open>string\<close>: each \<^typ>\<open>char\<close> stands for one UTF-16 code unit
    below 256 (the Latin-1 range), and \<^const>\<open>length\<close> is the \<^verbatim>\<open>length\<close> property.
    \<^verbatim>\<open>toLowerCase\<close> maps this range into itself.
  \<^item> Character offsets are \<^typ>\<open>int\<close>, so that the \<^verbatim>\<open>-1\<close> of \<^verbatim>\<open>indexOf\<close> is a value.
  \<^item> A score is an exact rational; a division of zero by zero is the value \<open>NaN\<close>.
    The rounding of IEEE doubles is not modelled.
  \<^item> The merger updates segment objects in place. It is modelled on values; the
    orchestrator, which shares those objects with the reports it returns, gives every
    object an identity and reads the updated objects back.
\<close>

subsection \<open>Character classes of the regular expressions\<close>

definition isSpace :: "char \<Rightarrow> bool" where
  \<comment> \<open>\<^verbatim>\<open>\s\<close>, and the characters removed by \<^verbatim>\<open>trim\<close>: the code units 9 to 13 (TAB, LF, VT, FF, CR), SP and NBSP\<close>
  "isSpace c = (let n = (of_char c :: nat) in (9 \<le> n \<and> n \<le> 13) \<or> n = 32 \<or> n = 160)"

definition isWord :: "char \<Rightarrow> bool" where
  \<comment> \<open>\<^verbatim>\<open>\w\<close> is \<^verbatim>\<open>[A-Za-z0-9_]\<close>\<close>
  "isWord c = (let n = (of_char c :: nat) in
     (48 \<le> n \<and> n \<le> 57) \<or> (65 \<le> n \<and> n \<le> 90) \<or> n = 95 \<or> (97 \<le> n \<and> n \<le> 122))"

definition isBoundary :: "char \<Rightarrow> bool" where
  \<comment> \<open>\<^verbatim>\<open>[.!?]\<close>\<close>
  "isBoundary c = (c = CHR ''.'' \<or> c = CHR ''!'' \<or> c = CHR ''?'')"

definition toLowerChar :: "char \<Rightarrow> char" where
  \<comment> \<open>A-Z, and the Latin-1 capitals U+00C0..U+00DE without the multiplication sign\<close>
  "toLowerChar c = (let n = (of_char c :: nat) in
     if (65 \<le> n \<and> n \<le> 90) \<or> (192 \<le> n \<and> n \<le> 222 \<and> n \<noteq> 215)
     then char_of (n + 32) else c)"

subsection \<open>String built-ins\<close>

definition toLowerCase :: "string \<Rightarrow> string" where
  "toLowerCase s = map toLowerChar s"

definition trim :: "string \<Rightarrow> string" where
  "trim s = rev (dropWhile isSpace (rev (dropWhile isSpace s)))"

text \<open>\<^verbatim>\<open>s.replace(/[^\w\s]/g, '')\<close> deletes every character outside both classes.\<close>

definition removeNonWord :: "string \<Rightarrow> string" where
  "removeNonWord s = filter (\<lambda>c. isWord c \<or> isSpace c) s"

text \<open>\<^verbatim>\<open>s.replace(/\s+/g, ' ')\<close> puts one space for every maximal run of white space.\<close>

function collapseSpaces :: "string \<Rightarrow> string" where
  "collapseSpaces [] = []"
| "collapseSpaces (c # cs) =
     (if isSpace c then CHR '' '' # collapseSpaces (dropWhile isSpace cs)
      else c # collapseSpaces cs)"
  by pat_completeness auto
termination
  by (relation "measure length") (auto simp: le_imp_less_Suc length_dropWhile_le)

text \<open>
  \<^verbatim>\<open>s.split(/[C]+/)\<close> for a character class \<open>C\<close>. The scan keeps the piece begun at the
  last split point; at a character of the class the greedy match takes the whole run,
  the piece is pushed and a new one begins behind the run. The last piece is pushed at
  the end of the string. The expression does not match the empty string, so the empty
  string splits into one empty piece.
\<close>

function splitLoop :: "(char \<Rightarrow> bool) \<Rightarrow> string \<Rightarrow> string \<Rightarrow> string list" where
  "splitLoop sep piece [] = [piece]"
| "splitLoop sep piece (c # cs) =
     (if sep c then piece # splitLoop sep [] (dropWhile sep cs)
      else splitLoop sep (piece @ [c]) cs)"
  by pat_completeness auto
termination
  by (relation "measure (\<lambda>(sep, piece, s). length s)")
     (auto simp: le_imp_less_Suc length_dropWhile_le)

definition split_re :: "(char \<Rightarrow> bool) \<Rightarrow> string \<Rightarrow> string list" where
  "split_re sep s = (if s = [] then [s] else splitLoop sep [] s)"

text \<open>\<^verbatim>\<open>s.indexOf(pat)\<close>: the least position at which \<open>pat\<close> begins, or \<open>-1\<close>.\<close>

fun indexOfFrom :: "nat \<Rightarrow> string \<Rightarrow> string \<Rightarrow> int" where
  "indexOfFrom k [] pat = (if pat = [] then int k else - 1)"
| "indexOfFrom k (c # cs) pat =
     (if take (length pat) (c # cs) = pat then int k else indexOfFrom (Suc k) cs pat)"

definition indexOf :: "string \<Rightarrow> string \<Rightarrow> int" where
  "indexOf s pat = indexOfFrom 0 s pat"

definition substring :: "string \<Rightarrow> int \<Rightarrow> int \<Rightarrow> string" where
  \<comment> \<open>\<^verbatim>\<open>s.substring(a, b)\<close> for \<open>0 \<le> a \<le> b\<close>\<close>
  "substring s a b = take (nat b - nat a) (drop (nat a) s)"

subsection \<open>Numbers\<close>

datatype number = Num rat | PosInf | NegInf | NaN

definition js_div :: "nat \<Rightarrow> nat \<Rightarrow> number" where
  \<comment> \<open>\<^verbatim>\<open>a / b\<close> for two sizes\<close>
  "js_div a b = (if b = 0 then (if a = 0 then NaN else PosInf) else Num (of_nat a / of_nat b))"

fun percent :: "number \<Rightarrow> number" where
  \<comment> \<open>\<^verbatim>\<open>x * 100\<close>\<close>
  "percent (Num x) = Num (x * 100)"
| "percent PosInf = PosInf"
| "percent NegInf = NegInf"
| "percent NaN = NaN"

fun js_ge :: "number \<Rightarrow> number \<Rightarrow> bool" where
  \<comment> \<open>\<^verbatim>\<open>x >= y\<close>, false as soon as one side is \<open>NaN\<close>\<close>
  "js_ge NaN y = False"
| "js_ge x NaN = False"
| "js_ge PosInf y = True"
| "js_ge x NegInf = True"
| "js_ge NegInf y = False"
| "js_ge x PosInf = False"
| "js_ge (Num x) (Num y) = (y \<le> x)"

definition round2 :: "rat \<Rightarrow> rat" where
  \<comment> \<open>\<^verbatim>\<open>Math.round(x * 100) / 100\<close>; \<^verbatim>\<open>Math.round\<close> rounds a half upwards\<close>
  "round2 x = of_int \<lfloor>x * 100 + 1 / 2\<rfloor> / 100"

subsection \<open>Normaliser, segmenter, scorer\<close>

definition normalizeText :: "string \<Rightarrow> string" where
  "normalizeText t = trim (collapseSpaces (removeNonWord (toLowerCase t)))"

definition splitIntoSentences :: "string \<Rightarrow> string list" where
  "splitIntoSentences t = filter (\<lambda>s. length s > 20) (map trim (split_re isBoundary t))"

definition calculateSimilarity :: "string \<Rightarrow> string \<Rightarrow> number" where
  "calculateSimilarity text1 text2 =
     (let words1 = split_re isSpace text1;
          words2 = split_re isSpace text2;
          set1 = set words1;
          set2 = set words2;
          intersection = Set.filter (\<lambda>x. x \<in> set2) set1;
          union = set1 \<union> set2
      in percent (js_div (card intersection) (card union)))"

subsection \<open>Segment matcher\<close>

record MatchedSegment =
  text_seg :: string  \<comment> \<open>the field \<^verbatim>\<open>text\<close>\<close>
  startIndex :: int
  endIndex :: int
  matchedSubmissionId :: string

text \<open>The inner loop, over the sentences of the compared text, for one sentence of the original.\<close>

fun comparedLoop ::
  "string \<Rightarrow> string \<Rightarrow> number \<Rightarrow> string \<Rightarrow> string \<Rightarrow> string list \<Rightarrow>
   MatchedSegment list \<Rightarrow> MatchedSegment list" where
  "comparedLoop originalText comparedSubmissionId threshold sentence normalizedSentence [] matches =
     matches"
| "comparedLoop originalText comparedSubmissionId threshold sentence normalizedSentence
     (comparedSentence # rest) matches =
     (let normalizedCompared = normalizeText comparedSentence;
          similarity = calculateSimilarity normalizedSentence normalizedCompared;
          matches' =
            (if js_ge similarity threshold then
               (let startIndex = indexOf originalText sentence in
                if startIndex \<noteq> - 1 then
                  matches @ [\<lparr>text_seg = sentence, startIndex = startIndex,
                              endIndex = startIndex + int (length sentence),
                              matchedSubmissionId = comparedSubmissionId\<rparr>]
                else matches)
             else matches)
      in comparedLoop originalText comparedSubmissionId threshold sentence normalizedSentence
           rest matches')"

text \<open>The outer loop, over the sentences of the original text.\<close>

fun originalLoop ::
  "string \<Rightarrow> string \<Rightarrow> number \<Rightarrow> string list \<Rightarrow> string list \<Rightarrow>
   MatchedSegment list \<Rightarrow> MatchedSegment list" where
  "originalLoop originalText comparedSubmissionId threshold comparedSentences [] matches = matches"
| "originalLoop originalText comparedSubmissionId threshold comparedSentences (sentence # rest)
     matches =
     (let normalizedSentence = normalizeText sentence
      in originalLoop originalText comparedSubmissionId threshold comparedSentences rest
           (comparedLoop originalText comparedSubmissionId threshold sentence normalizedSentence
              comparedSentences matches))"

definition findMatchingSegments ::
  "string \<Rightarrow> string \<Rightarrow> string \<Rightarrow> number \<Rightarrow> MatchedSegment list" where
  "findMatchingSegments originalText comparedText comparedSubmissionId threshold =
     (let originalSentences = splitIntoSentences originalText;
          comparedSentences = splitIntoSentences comparedText
      in originalLoop originalText comparedSubmissionId threshold comparedSentences
           originalSentences [])"

definition defaultThreshold :: number where
  "defaultThreshold = Num 70"

subsection \<open>Segment merger\<close>

text \<open>
  The functions of the merger touch the four fields only, so they are stated for every
  extension of the record: the orchestrator runs them on segments that carry an identity.
\<close>

definition extendLast ::
  "'a MatchedSegment_scheme \<Rightarrow> 'a MatchedSegment_scheme \<Rightarrow> 'a MatchedSegment_scheme" where
  \<comment> \<open>the two assignments to \<^verbatim>\<open>last\<close>\<close>
  "extendLast lastSeg current =
     lastSeg\<lparr>endIndex := max (endIndex lastSeg) (endIndex current),
             text_seg := text_seg lastSeg @ '' '' @ text_seg current\<rparr>"

fun mergeLoop ::
  "'a MatchedSegment_scheme list \<Rightarrow> 'a MatchedSegment_scheme list \<Rightarrow>
   'a MatchedSegment_scheme list" where
  "mergeLoop merged [] = merged"
| "mergeLoop merged (current # rest) =
     (let lastSeg = last merged in
      if startIndex current \<le> endIndex lastSeg
      then mergeLoop (butlast merged @ [extendLast lastSeg current]) rest
      else mergeLoop (merged @ [current]) rest)"

definition mergeOverlappingSegments ::
  "'a MatchedSegment_scheme list \<Rightarrow> 'a MatchedSegment_scheme list" where
  \<comment> \<open>\<^verbatim>\<open>Array.prototype.sort\<close> is stable, as \<^const>\<open>sort_key\<close> is\<close>
  "mergeOverlappingSegments segments =
     (if length segments = 0 then []
      else (let sorted = sort_key startIndex segments
            in mergeLoop [hd sorted] (tl sorted)))"

subsection \<open>Orchestrator and the two stores\<close>

datatype Status = Draft | Submitted | Graded

text \<open>
  A row of \<^verbatim>\<open>submissions\<close>, with the columns the engine reads. The schema lets
  \<^verbatim>\<open>content\<close> and \<^verbatim>\<open>status\<close> be null, which is \<^const>\<open>None\<close>; \<^verbatim>\<open>id\<close> is the primary key.
\<close>

record Submission =
  sub_id :: string  \<comment> \<open>the column \<^verbatim>\<open>id\<close>\<close>
  assignment_id :: string
  content :: "string option"
  status :: "Status option"

record 's Report =
  compared_submission_id :: string
  similarity_score :: rat
  matched_content :: "'s list"

record ReportRow = "MatchedSegment Report" +
  submission_id :: string

record Database =
  submissions :: "Submission list"
  plagiarism_reports :: "ReportRow list"

record ObjSegment = MatchedSegment +
  objId :: nat  \<comment> \<open>the identity of the segment object\<close>

datatype CheckResult =
    ErrorResult string
  | NoPeers rat "MatchedSegment Report list" string
  | Checked rat "MatchedSegment Report list" "MatchedSegment list"

definition selectSingle :: "Database \<Rightarrow> string \<Rightarrow> Submission option" where
  \<comment> \<open>\<^verbatim>\<open>.eq('id', submissionId).single()\<close>: the data is null unless exactly one row is found\<close>
  "selectSingle db submissionId =
     (case filter (\<lambda>s. sub_id s = submissionId) (submissions db) of
        [row] \<Rightarrow> Some row
      | _ \<Rightarrow> None)"

definition selectOthers :: "Database \<Rightarrow> string \<Rightarrow> string \<Rightarrow> Submission list" where
  "selectOthers db assignmentId submissionId =
     filter (\<lambda>s. assignment_id s = assignmentId \<and> sub_id s \<noteq> submissionId \<and>
               status s = Some Submitted)
       (submissions db)"

definition insertReport :: "Database \<Rightarrow> ReportRow \<Rightarrow> Database" where
  \<comment> \<open>the table's check constraint refuses a score outside 0..100; the caller ignores
      the refusal\<close>
  "insertReport db row =
     (if 0 \<le> similarity_score row \<and> similarity_score row \<le> 100
      then db\<lparr>plagiarism_reports := plagiarism_reports db @ [row]\<rparr>
      else db)"

definition matchedChars :: "'a MatchedSegment_scheme list \<Rightarrow> int" where
  \<comment> \<open>\<^verbatim>\<open>reduce((sum, m) => sum + (m.endIndex - m.startIndex), 0)\<close>\<close>
  "matchedChars ms = foldl (\<lambda>sum m. sum + (endIndex m - startIndex m)) 0 ms"

definition percentOf :: "int \<Rightarrow> string \<Rightarrow> rat" where
  \<comment> \<open>\<^verbatim>\<open>(totalMatchedChars / content.length) * 100\<close>, used for a content that is not empty\<close>
  "percentOf matched c = of_int matched / of_nat (length c) * 100"

definition allocate :: "nat \<Rightarrow> MatchedSegment list \<Rightarrow> ObjSegment list" where
  "allocate n ms =
     map (\<lambda>(k, m). \<lparr>text_seg = text_seg m, startIndex = startIndex m, endIndex = endIndex m,
                     matchedSubmissionId = matchedSubmissionId m, objId = k\<rparr>)
       (enumerate n ms)"

record LoopState =
  allMatchedSegments :: "ObjSegment list"
  reports :: "ObjSegment Report list"
  store :: Database

definition falsy :: "string option \<Rightarrow> bool" where
  \<comment> \<open>\<^verbatim>\<open>!content\<close>: null or the empty string\<close>
  "falsy c = (case c of None \<Rightarrow> True | Some s \<Rightarrow> s = [])"

definition contentOf :: "Submission \<Rightarrow> string" where
  \<comment> \<open>the content as a string, read only behind the test \<^verbatim>\<open>!content\<close>\<close>
  "contentOf sub = (case content sub of None \<Rightarrow> [] | Some s \<Rightarrow> s)"

fun peerLoop :: "string \<Rightarrow> string \<Rightarrow> Submission list \<Rightarrow> LoopState \<Rightarrow> LoopState" where
  "peerLoop submissionId currentContent [] st = st"
| "peerLoop submissionId currentContent (otherSubmission # rest) st =
     (if falsy (content otherSubmission) then peerLoop submissionId currentContent rest st
      else
        (let matches = findMatchingSegments currentContent (contentOf otherSubmission)
                         (sub_id otherSubmission) defaultThreshold
         in if length matches > 0 then
              (let objs = allocate (length (allMatchedSegments st)) matches;
                   totalMatchedChars = matchedChars matches;
                   similarity = percentOf totalMatchedChars currentContent
               in peerLoop submissionId currentContent rest
                    \<lparr>allMatchedSegments = allMatchedSegments st @ objs,
                     reports = reports st @
                       [\<lparr>compared_submission_id = sub_id otherSubmission,
                         similarity_score = round2 similarity,
                         matched_content = objs\<rparr>],
                     store = insertReport (store st)
                       \<lparr>compared_submission_id = sub_id otherSubmission,
                        similarity_score = round2 similarity,
                        matched_content = matches,
                        submission_id = submissionId\<rparr>\<rparr>)
            else peerLoop submissionId currentContent rest st))"

definition deref :: "ObjSegment list \<Rightarrow> ObjSegment \<Rightarrow> MatchedSegment" where
  \<comment> \<open>the fields of an object after the merger has run: the merged list holds the
      objects it has updated\<close>
  "deref merged obj =
     (case find (\<lambda>m. objId m = objId obj) merged of
        Some m \<Rightarrow> MatchedSegment.truncate m
      | None \<Rightarrow> MatchedSegment.truncate obj)"

definition readBack :: "ObjSegment list \<Rightarrow> ObjSegment Report \<Rightarrow> MatchedSegment Report" where
  "readBack merged r =
     \<lparr>compared_submission_id = compared_submission_id r,
      similarity_score = similarity_score r,
      matched_content = map (deref merged) (matched_content r)\<rparr>"

definition checkPlagiarism :: "Database \<Rightarrow> string \<Rightarrow> string \<Rightarrow> CheckResult \<times> Database" where
  "checkPlagiarism db submissionId assignmentId =
     (case selectSingle db submissionId of
        None \<Rightarrow> (ErrorResult ''Submission not found or empty'', db)
      | Some currentSubmission \<Rightarrow>
          if falsy (content currentSubmission)
          then (ErrorResult ''Submission not found or empty'', db)
          else
            (let otherSubmissions = selectOthers db assignmentId submissionId
             in if length otherSubmissions = 0
                then (NoPeers 0 [] ''No other submissions to compare against'', db)
                else
                  (let st = peerLoop submissionId (contentOf currentSubmission) otherSubmissions
                              \<lparr>allMatchedSegments = [], reports = [], store = db\<rparr>;
                       mergedSegments = mergeOverlappingSegments (allMatchedSegments st);
                       totalMatchedChars = matchedChars mergedSegments;
                       overallSimilarity = percentOf totalMatchedChars (contentOf currentSubmission)
                   in (Checked (round2 overallSimilarity)
                         (sort_key (\<lambda>r. - similarity_score r)
                            (map (readBack mergedSegments) (reports st)))
                         (map MatchedSegment.truncate mergedSegments),
                       store st))))"

subsection \<open>Predicates used to state the properties\<close>

definition isLowerWord :: "char \<Rightarrow> bool" where
  \<comment> \<open>a word character that is not a capital: \<^verbatim>\<open>[a-z0-9_]\<close>\<close>
  "isLowerWord c = (let n = (of_char c :: nat) in
     (48 \<le> n \<and> n \<le> 57) \<or> n = 95 \<or> (97 \<le> n \<and> n \<le> 122))"

fun singleSpaced :: "string \<Rightarrow> bool" where
  \<comment> \<open>no two neighbours are both the space character\<close>
  "singleSpaced (a # b # rest) = (\<not> (a = CHR '' '' \<and> b = CHR '' '') \<and> singleSpaced (b # rest))"
| "singleSpaced _ = True"

fun noSpaceRun :: "string \<Rightarrow> bool" where
  \<comment> \<open>no two neighbours are both white space\<close>
  "noSpaceRun (a # b # rest) = (\<not> (isSpace a \<and> isSpace b) \<and> noSpaceRun (b # rest))"
| "noSpaceRun _ = True"

definition normal :: "string \<Rightarrow> bool" where
  "normal s \<longleftrightarrow> (\<forall>c\<in>set s. isLowerWord c \<or> c = CHR '' '') \<and> noSpaceRun s \<and>
     (s \<noteq> [] \<longrightarrow> \<not> isSpace (hd s) \<and> \<not> isSpace (last s))"

definition occursAt :: "string \<Rightarrow> string \<Rightarrow> nat \<Rightarrow> bool" where
  \<comment> \<open>\<open>pat\<close> is the part of \<open>s\<close> that begins at position \<open>j\<close>\<close>
  "occursAt s pat j = (j \<le> length s \<and> take (length pat) (drop j s) = pat)"

text \<open>The half-open range of offsets a segment covers.\<close>

definition span :: "'a MatchedSegment_scheme \<Rightarrow> int set" where
  "span m = {startIndex m ..< endIndex m}"

text \<open>
  The loop of the merger with \<^verbatim>\<open>last\<close> held apart from the finished spans; it is shown below
  to compute what \<open>mergeLoop\<close> computes.
\<close>

fun mergeFrom ::
  "'a MatchedSegment_scheme \<Rightarrow> 'a MatchedSegment_scheme list \<Rightarrow> 'a MatchedSegment_scheme list" where
  "mergeFrom l [] = [l]"
| "mergeFrom l (c # rest) =
     (if startIndex c \<le> endIndex l then mergeFrom (extendLast l c) rest
      else l # mergeFrom c rest)"

text \<open>
  The loop of the merger once more, where every merged span is paired with the list of
  the input segments that were coalesced into it.
\<close>

fun traceLoop ::
  "('a MatchedSegment_scheme \<times> 'a MatchedSegment_scheme list) list \<Rightarrow>
   'a MatchedSegment_scheme list \<Rightarrow>
   ('a MatchedSegment_scheme \<times> 'a MatchedSegment_scheme list) list" where
  "traceLoop merged [] = merged"
| "traceLoop merged (current # rest) =
     (let (lastSeg, grp) = last merged in
      if startIndex current \<le> endIndex lastSeg
      then traceLoop (butlast merged @ [(extendLast lastSeg current, grp @ [current])]) rest
      else traceLoop (merged @ [(current, [current])]) rest)"

definition coalesced ::
  "'a MatchedSegment_scheme list \<Rightarrow>
   ('a MatchedSegment_scheme \<times> 'a MatchedSegment_scheme list) list" where
  "coalesced segments =
     (if length segments = 0 then []
      else (let sorted = sort_key startIndex segments
            in traceLoop [(hd sorted, [hd sorted])] (tl sorted)))"

fun traceFrom ::
  "'a MatchedSegment_scheme \<Rightarrow> 'a MatchedSegment_scheme list \<Rightarrow>
   'a MatchedSegment_scheme list \<Rightarrow>
   ('a MatchedSegment_scheme \<times> 'a MatchedSegment_scheme list) list" where
  "traceFrom l g [] = [(l, g)]"
| "traceFrom l g (c # rest) =
     (if startIndex c \<le> endIndex l then traceFrom (extendLast l c) (g @ [c]) rest
      else (l, g) # traceFrom c [c] rest)"

definition exampleSegments :: "MatchedSegment list" where
  "exampleSegments =
     [\<lparr>text_seg = ''b'', startIndex = 5, endIndex = 10, matchedSubmissionId = ''q''\<rparr>,
      \<lparr>text_seg = ''a'', startIndex = 0, endIndex = 6, matchedSubmissionId = ''p''\<rparr>,
      \<lparr>text_seg = ''c'', startIndex = 20, endIndex = 25, matchedSubmissionId = ''r''\<rparr>,
      \<lparr>text_seg = ''d'', startIndex = 0, endIndex = 3, matchedSubmissionId = ''s''\<rparr>]"

subsection \<open>The segmenter in the words of the specification\<close>

text \<open>
  Splitting on runs of boundary characters: a piece is the longest prefix free of
  boundary characters; behind it the whole run of boundary characters is dropped and the
  rest is split in the same way.
\<close>

function splitOnRuns :: "(char \<Rightarrow> bool) \<Rightarrow> string \<Rightarrow> string list" where
  "splitOnRuns sep s =
     (let piece = takeWhile (\<lambda>c. \<not> sep c) s;
          rest = dropWhile (\<lambda>c. \<not> sep c) s
      in if rest = [] then [piece] else piece # splitOnRuns sep (dropWhile sep rest))"
  by pat_completeness auto
termination
proof (relation "measure (\<lambda>(sep, s). length s)")
  show "wf (measure (\<lambda>(sep, s). length s))" by simp
next
  fix sep :: "char \<Rightarrow> bool" and s piece rest :: string
  assume rest: "rest = dropWhile (\<lambda>c. \<not> sep c) s" and ne: "rest \<noteq> []"
  from ne obtain d ds where d: "rest = d # ds" by (meson list.exhaust)
  have "\<not> \<not> sep (hd rest)" using hd_dropWhile [of "\<lambda>c. \<not> sep c" s] ne
    unfolding rest by blast
  then have "sep d" using d by simp
  then have "length (dropWhile sep rest) \<le> length ds"
    using d by (simp add: length_dropWhile_le)
  also have "\<dots> < length rest" using d by simp
  also have "\<dots> \<le> length s" using rest by (simp add: length_dropWhile_le)
  finally show "((sep, dropWhile sep rest), (sep, s)) \<in> measure (\<lambda>(sep, s). length s)"
    by simp
qed

declare splitOnRuns.simps [simp del]

text \<open>
  The pieces, trimmed, in their order, without those shorter than \<open>minLength\<close>.
\<close>

definition segment_spec :: "nat \<Rightarrow> string \<Rightarrow> string list" where
  "segment_spec minLength t =
     filter (\<lambda>p. \<not> length p < minLength) (map trim (splitOnRuns isBoundary t))"

subsection \<open>A store used in the examples\<close>

definition exampleStore :: Database where
  "exampleStore =
     \<lparr>submissions =
        [\<lparr>sub_id = ''s1'', assignment_id = ''a1'', content = Some '''',
          status = Some Submitted\<rparr>,
         \<lparr>sub_id = ''s2'', assignment_id = ''a1'',
          content = Some ''The quick brown fox jumps over it.'', status = Some Submitted\<rparr>,
         \<lparr>sub_id = ''s3'', assignment_id = ''a1'',
          content = Some ''Intro. The quick brown fox jumps over it! Yes.'',
          status = Some Draft\<rparr>],
      plagiarism_reports = []\<rparr>"

section \<open>Properties\<close>

subsection \<open>Similarity scorer\<close>

lemma splitLoop_not_Nil: "splitLoop sep piece s \<noteq> []"
  by (induction sep piece s rule: splitLoop.induct) auto

lemma split_re_not_Nil: "split_re sep s \<noteq> []"
  by (simp add: split_re_def splitLoop_not_Nil)

lemma card_words_pos: "0 < card (set (split_re sep a) \<union> set (split_re sep b))"
  using split_re_not_Nil [of sep a] by (simp add: card_gt_0_iff)

lemma calculateSimilarity_same: "calculateSimilarity t t = Num 100"
proof -
  let ?S = "set (split_re isSpace t)"
  have pos: "0 < card ?S"
    using split_re_not_Nil [of isSpace t] by (simp add: card_gt_0_iff)
  have "Set.filter (\<lambda>x. x \<in> ?S) ?S = ?S" by auto
  with pos show ?thesis
    unfolding calculateSimilarity_def Let_def js_div_def by (simp add: split_re_not_Nil)
qed

text \<open>
  Claim C1, as amended. The empty string splits into one empty word, so two empty strings
  have the same one-word set and score 100, not 0. The division is never one by zero:
  for all inputs the score is a number between 0 and 100.
\<close>

theorem C1_empty_strings_score_100:
  "calculateSimilarity [] [] = Num 100 \<and>
   (\<exists>q. calculateSimilarity a b = Num q \<and> 0 \<le> q \<and> q \<le> 100)"
proof
  show "calculateSimilarity [] [] = Num 100"
    by (rule calculateSimilarity_same)
next
  let ?A = "set (split_re isSpace a)" and ?B = "set (split_re isSpace b)"
  let ?I = "Set.filter (\<lambda>x. x \<in> ?B) ?A"
  have pos: "0 < card (?A \<union> ?B)" by (rule card_words_pos)
  have "?I \<subseteq> ?A \<union> ?B" by auto
  then have le: "card ?I \<le> card (?A \<union> ?B)"
    by (intro card_mono) auto
  define q :: rat where "q = of_nat (card ?I) / of_nat (card (?A \<union> ?B))"
  have eq: "calculateSimilarity a b = Num (q * 100)"
    unfolding calculateSimilarity_def Let_def js_div_def q_def
    by (simp add: split_re_not_Nil)
  have "q \<le> 1"
    using pos le by (simp add: q_def divide_le_eq_1)
  moreover have "0 \<le> q"
    by (simp add: q_def)
  ultimately have "0 \<le> q * 100 \<and> q * 100 \<le> 100"
    by simp
  with eq show "\<exists>q. calculateSimilarity a b = Num q \<and> 0 \<le> q \<and> q \<le> 100"
    by blast
qed

text \<open>The claim as stated asks for 0 on two empty strings.\<close>

theorem C1_empty_strings_not_0: "calculateSimilarity [] [] \<noteq> Num 0"
  by (simp add: calculateSimilarity_def split_re_def js_div_def)

text \<open>
  Claim C8. A normalised text scored against itself gives 100, also when the normalised
  text is empty.
\<close>

theorem C8_self_similarity:
  "calculateSimilarity (normalizeText a) (normalizeText a) = Num 100"
  by (rule calculateSimilarity_same)

theorem C8_self_similarity_empty:
  "normalizeText ''!?  '' = [] \<and>
   calculateSimilarity (normalizeText ''!?  '') (normalizeText ''!?  '') = Num 100"
  using C8_self_similarity [of "''!?  ''"]
  by (simp add: normalizeText_def toLowerCase_def toLowerChar_def removeNonWord_def
      isWord_def isSpace_def trim_def)

subsection \<open>Text normaliser\<close>

lemma of_char_toLowerChar:
  "(of_char (toLowerChar c) :: nat) =
     (let n = (of_char c :: nat) in
      if (65 \<le> n \<and> n \<le> 90) \<or> (192 \<le> n \<and> n \<le> 222 \<and> n \<noteq> 215) then n + 32 else n)"
  by (simp add: toLowerChar_def Let_def)

lemma toLowerChar_word: "isWord (toLowerChar c) \<Longrightarrow> isLowerWord (toLowerChar c)"
  unfolding isWord_def isLowerWord_def of_char_toLowerChar Let_def
  by (simp split: if_splits; linarith)

lemma lowerWord_facts:
  assumes "isLowerWord c"
  shows "\<not> isSpace c" and "isWord c" and "toLowerChar c = c"
  using assms unfolding isSpace_def isWord_def isLowerWord_def toLowerChar_def Let_def
  by auto

lemma space_facts: "isSpace (CHR '' '')" "toLowerChar (CHR '' '') = CHR '' ''"
  by (simp_all add: isSpace_def toLowerChar_def)

lemma noSpaceRun_Cons: "\<not> isSpace c \<Longrightarrow> noSpaceRun (c # r) = noSpaceRun r"
  by (cases r) auto

lemma noSpaceRun_tail: "noSpaceRun (c # r) \<Longrightarrow> noSpaceRun r"
  by (cases r) auto

lemma noSpaceRun_append: "noSpaceRun (a @ b) \<Longrightarrow> noSpaceRun b"
  by (induction a) (auto dest: noSpaceRun_tail)

lemma noSpaceRun_prefix: "noSpaceRun (a @ b) \<Longrightarrow> noSpaceRun a"
proof (induction a rule: noSpaceRun.induct)
  case (1 x y rest)
  then show ?case by simp
qed simp_all

lemma noSpaceRun_singleSpaced: "noSpaceRun s \<Longrightarrow> singleSpaced s"
  by (induction s rule: noSpaceRun.induct) (auto simp: space_facts)

lemma set_collapseSpaces:
  "set (collapseSpaces s) \<subseteq> {CHR '' ''} \<union> {c \<in> set s. \<not> isSpace c}"
proof (induction s rule: collapseSpaces.induct)
  case 1
  then show ?case by simp
next
  case (2 c cs)
  have "set (dropWhile isSpace cs) \<subseteq> set cs"
    by (auto dest: set_dropWhileD)
  with 2 show ?case by auto
qed

lemma noSpaceRun_collapseSpaces: "noSpaceRun (collapseSpaces s)"
proof (induction s rule: collapseSpaces.induct)
  case 1
  then show ?case by simp
next
  case (2 c cs)
  show ?case
  proof (cases "isSpace c")
    case True
    then have eq: "collapseSpaces (c # cs) = CHR '' '' # collapseSpaces (dropWhile isSpace cs)"
      by simp
    show ?thesis
    proof (cases "dropWhile isSpace cs")
      case Nil
      show ?thesis unfolding eq Nil by simp
    next
      case (Cons d ds)
      then have "\<not> isSpace d" using hd_dropWhile [of isSpace cs] by auto
      moreover have "noSpaceRun (collapseSpaces (d # ds))"
        using 2(1) [OF True] Cons by simp
      ultimately show ?thesis unfolding eq Cons by simp
    qed
  next
    case False
    with 2 show ?thesis by (simp add: noSpaceRun_Cons)
  qed
qed

text \<open>\<^const>\<open>trim\<close> keeps a contiguous part of its argument.\<close>

lemma trim_decomp: "\<exists>pre post. s = pre @ trim s @ post"
proof -
  let ?a = "dropWhile isSpace s"
  have 1: "s = takeWhile isSpace s @ ?a" by simp
  have 2: "?a = trim s @ rev (takeWhile isSpace (rev ?a))"
    unfolding trim_def by (metis rev_append rev_rev_ident takeWhile_dropWhile_id)
  from 1 2 have "s = takeWhile isSpace s @ trim s @ rev (takeWhile isSpace (rev ?a))"
    by simp
  then show ?thesis by blast
qed

lemma trim_ends:
  assumes "trim s \<noteq> []"
  shows "\<not> isSpace (hd (trim s))" and "\<not> isSpace (last (trim s))"
proof -
  let ?a = "dropWhile isSpace s"
  let ?b = "dropWhile isSpace (rev ?a)"
  from assms have b: "?b \<noteq> []" by (simp add: trim_def)
  then have a: "?a \<noteq> []" by (metis dropWhile.simps(1) rev.simps(1))
  have "last (trim s) = hd ?b" using b by (simp add: trim_def last_rev)
  moreover have "\<not> isSpace (hd ?b)" using b by (rule hd_dropWhile)
  ultimately show "\<not> isSpace (last (trim s))" by simp
  have "rev ?a = takeWhile isSpace (rev ?a) @ ?b" by simp
  then have "last (rev ?a) = last ?b" using b by (metis last_appendR)
  then have "hd ?a = last ?b" using a by (simp add: last_rev)
  moreover have "hd (trim s) = last ?b" using b by (simp add: trim_def hd_rev)
  moreover have "\<not> isSpace (hd ?a)" using a by (rule hd_dropWhile)
  ultimately show "\<not> isSpace (hd (trim s))" by simp
qed

lemma trim_id:
  assumes "s \<noteq> [] \<Longrightarrow> \<not> isSpace (hd s) \<and> \<not> isSpace (last s)"
  shows "trim s = s"
proof (cases s)
  case Nil
  then show ?thesis by (simp add: trim_def)
next
  case (Cons c cs)
  with assms have h: "\<not> isSpace (hd s)" and l: "\<not> isSpace (last s)" by auto
  from h Cons have 1: "dropWhile isSpace s = s" by simp
  have "rev s \<noteq> []" using Cons by simp
  moreover have "hd (rev s) = last s" using Cons by (simp add: hd_rev)
  ultimately have "dropWhile isSpace (rev s) = rev s"
    using l by (simp only: dropWhile_eq_self_iff) simp
  with 1 show ?thesis by (simp add: trim_def)
qed

lemma collapseSpaces_id:
  "noSpaceRun s \<Longrightarrow> \<forall>c\<in>set s. isSpace c \<longrightarrow> c = CHR '' '' \<Longrightarrow> collapseSpaces s = s"
proof (induction s rule: collapseSpaces.induct)
  case 1
  then show ?case by simp
next
  case (2 c cs)
  have tl: "noSpaceRun cs" using 2(3) by (rule noSpaceRun_tail)
  show ?case
  proof (cases "isSpace c")
    case True
    then have c: "c = CHR '' ''" using 2(4) by simp
    have dw: "dropWhile isSpace cs = cs"
      using 2(3) True by (cases cs) auto
    have "collapseSpaces (dropWhile isSpace cs) = dropWhile isSpace cs"
      using 2(1) [OF True] 2(4) tl dw by simp
    with True c dw show ?thesis by simp
  next
    case False
    with 2 tl show ?thesis by simp
  qed
qed

lemma normal_normalizeText: "normal (normalizeText t)"
proof -
  let ?s0 = "removeNonWord (toLowerCase t)"
  let ?s1 = "collapseSpaces ?s0"
  have s0: "\<forall>c\<in>set ?s0. isLowerWord c \<or> isSpace c"
    by (auto simp: removeNonWord_def toLowerCase_def dest: toLowerChar_word)
  have s1: "\<forall>c\<in>set ?s1. isLowerWord c \<or> c = CHR '' ''"
    using set_collapseSpaces [of ?s0] s0 by auto
  obtain pre post where d: "?s1 = pre @ trim ?s1 @ post"
    using trim_decomp by blast
  then have "set (trim ?s1) \<subseteq> set ?s1"
    by (metis Un_upper1 Un_upper2 set_append subset_trans)
  with s1 have chars: "\<forall>c\<in>set (trim ?s1). isLowerWord c \<or> c = CHR '' ''" by blast
  have "noSpaceRun (pre @ trim ?s1 @ post)"
    using noSpaceRun_collapseSpaces [of ?s0] d by simp
  then have "noSpaceRun (trim ?s1)"
    by (blast dest: noSpaceRun_append noSpaceRun_prefix)
  with chars trim_ends [of ?s1] show ?thesis
    by (simp add: normal_def normalizeText_def)
qed

lemma normalizeText_normal: "normal s \<Longrightarrow> normalizeText s = s"
proof -
  assume n: "normal s"
  then have chars: "\<forall>c\<in>set s. isLowerWord c \<or> c = CHR '' ''" by (simp add: normal_def)
  have 1: "toLowerCase s = s"
    unfolding toLowerCase_def using chars by (intro map_idI) (auto simp: lowerWord_facts space_facts)
  have 2: "removeNonWord s = s"
    unfolding removeNonWord_def using chars by (intro filter_True) (auto simp: lowerWord_facts space_facts)
  have 3: "collapseSpaces s = s"
    using n chars by (intro collapseSpaces_id) (auto simp: normal_def lowerWord_facts)
  have 4: "trim s = s"
    using n by (intro trim_id) (simp add: normal_def)
  show ?thesis by (simp add: normalizeText_def 1 2 3 4)
qed

text \<open>
  Claim C9. The normaliser is idempotent. Its output holds only the characters
  \<^verbatim>\<open>a-z\<close>, \<^verbatim>\<open>0-9\<close>, \<^verbatim>\<open>_\<close> and the space, no two spaces are neighbours, and it neither
  begins nor ends with a space.
\<close>

theorem C9_normalizeText_idempotent:
  "normalizeText (normalizeText t) = normalizeText t \<and>
   (\<forall>c\<in>set (normalizeText t). isLowerWord c \<or> c = CHR '' '') \<and>
   singleSpaced (normalizeText t) \<and>
   (normalizeText t \<noteq> [] \<longrightarrow>
      hd (normalizeText t) \<noteq> CHR '' '' \<and> last (normalizeText t) \<noteq> CHR '' '')"
proof -
  have n: "normal (normalizeText t)" by (rule normal_normalizeText)
  then have "normalizeText (normalizeText t) = normalizeText t" by (rule normalizeText_normal)
  moreover have "singleSpaced (normalizeText t)"
    using n by (simp add: normal_def noSpaceRun_singleSpaced)
  ultimately show ?thesis using n by (auto simp: normal_def space_facts)
qed

theorem C9_normalizeText_example:
  "normalizeText ''  Hello,   World_1!  '' = ''hello world_1'' \<and>
   normalizeText (normalizeText ''  Hello,   World_1!  '') = ''hello world_1'' \<and>
   isLowerWord (CHR ''h'') \<and> singleSpaced ''hello world_1'' \<and>
   hd ''hello world_1'' \<noteq> CHR '' '' \<and> last ''hello world_1'' \<noteq> CHR '' ''"
proof -
  have e: "normalizeText ''  Hello,   World_1!  '' = ''hello world_1''"
    by code_simp
  show ?thesis
    using C9_normalizeText_idempotent [of "''  Hello,   World_1!  ''"]
    by (simp add: e)
qed

subsection \<open>Sentence segmenter\<close>

lemma splitOnRuns_Nil: "splitOnRuns sep [] = [[]]"
  by (simp add: splitOnRuns.simps)

lemma splitOnRuns_not_Nil: "splitOnRuns sep s \<noteq> []"
  by (subst splitOnRuns.simps) (simp add: Let_def)

lemma splitOnRuns_sep:
  "sep c \<Longrightarrow> splitOnRuns sep (c # cs) = [] # splitOnRuns sep (dropWhile sep cs)"
  by (subst splitOnRuns.simps) (simp add: Let_def)

lemma splitOnRuns_nonsep:
  assumes "\<not> sep c"
  shows "splitOnRuns sep (c # cs) = (c # hd (splitOnRuns sep cs)) # tl (splitOnRuns sep cs)"
proof -
  have "splitOnRuns sep cs =
      (if dropWhile (\<lambda>c. \<not> sep c) cs = [] then [takeWhile (\<lambda>c. \<not> sep c) cs]
       else takeWhile (\<lambda>c. \<not> sep c) cs #
            splitOnRuns sep (dropWhile sep (dropWhile (\<lambda>c. \<not> sep c) cs)))"
    by (subst splitOnRuns.simps) (simp add: Let_def del: dropWhile_eq_Nil_conv)
  moreover have "splitOnRuns sep (c # cs) =
      (if dropWhile (\<lambda>c. \<not> sep c) cs = [] then [c # takeWhile (\<lambda>c. \<not> sep c) cs]
       else (c # takeWhile (\<lambda>c. \<not> sep c) cs) #
            splitOnRuns sep (dropWhile sep (dropWhile (\<lambda>c. \<not> sep c) cs)))"
    using assms by (subst splitOnRuns.simps) (simp add: Let_def del: dropWhile_eq_Nil_conv)
  ultimately show ?thesis by (simp del: dropWhile_eq_Nil_conv)
qed

lemma splitLoop_splitOnRuns:
  "splitLoop sep piece s = (piece @ hd (splitOnRuns sep s)) # tl (splitOnRuns sep s)"
proof (induction sep piece s rule: splitLoop.induct)
  case (1 sep piece)
  show ?case by (simp add: splitOnRuns_Nil)
next
  case (2 sep piece c cs)
  show ?case
  proof (cases "sep c")
    case True
    let ?S = "splitOnRuns sep (dropWhile sep cs)"
    have "splitLoop sep [] (dropWhile sep cs) = hd ?S # tl ?S"
      using 2(1) [OF True] by simp
    also have "\<dots> = ?S" using splitOnRuns_not_Nil [of sep "dropWhile sep cs"] by simp
    finally show ?thesis using True by (simp add: splitOnRuns_sep)
  next
    case False
    with 2(2) [OF False] show ?thesis by (simp add: splitOnRuns_nonsep)
  qed
qed

lemma split_re_splitOnRuns: "split_re sep s = splitOnRuns sep s"
proof (cases "s = []")
  case True
  then show ?thesis by (simp add: split_re_def splitOnRuns_Nil)
next
  case False
  then have "split_re sep s = ([] @ hd (splitOnRuns sep s)) # tl (splitOnRuns sep s)"
    by (simp only: split_re_def if_False splitLoop_splitOnRuns)
  then show ?thesis using splitOnRuns_not_Nil [of sep s] by simp
qed

lemma splitOnRuns_pieces: "p \<in> set (splitOnRuns sep s) \<Longrightarrow> c \<in> set p \<Longrightarrow> \<not> sep c"
proof (induction sep s rule: splitOnRuns.induct)
  case (1 sep s)
  let ?rest = "dropWhile (\<lambda>c. \<not> sep c) s"
  from 1(2) have "p = takeWhile (\<lambda>c. \<not> sep c) s \<or>
      (?rest \<noteq> [] \<and> p \<in> set (splitOnRuns sep (dropWhile sep ?rest)))"
    by (subst (asm) splitOnRuns.simps) (auto simp: Let_def split: if_splits simp del: dropWhile_eq_Nil_conv)
  then show ?case
  proof
    assume "p = takeWhile (\<lambda>c. \<not> sep c) s"
    with 1(3) show ?thesis by (auto dest: set_takeWhileD)
  next
    assume a: "?rest \<noteq> [] \<and> p \<in> set (splitOnRuns sep (dropWhile sep ?rest))"
    then show ?thesis using 1(1) [OF refl refl _ _ 1(3)] by blast
  qed
qed

text \<open>
  Claim C2, as amended. The segmenter returns, in their order, the trimmed pieces between
  the runs of boundary characters, without the pieces shorter than 21 characters: a
  trimmed piece of exactly 20 characters is discarded. No piece holds a boundary character.
\<close>

theorem C2_segmenter_keeps_longer_than_20:
  "splitIntoSentences t = segment_spec 21 t \<and>
   (\<forall>p\<in>set (splitOnRuns isBoundary t). \<forall>c\<in>set p. \<not> isBoundary c)"
  by (auto simp: splitIntoSentences_def segment_spec_def split_re_splitOnRuns
      not_less Suc_le_eq intro: filter_cong dest: splitOnRuns_pieces)

theorem C2_segmenter_example:
  "splitIntoSentences ''exactly twenty chars. this one has twenty-1! ok'' =
     [''this one has twenty-1''] \<and>
   segment_spec 21 ''exactly twenty chars. this one has twenty-1! ok'' =
     [''this one has twenty-1''] \<and>
   splitOnRuns isBoundary ''exactly twenty chars. this one has twenty-1! ok'' =
     [''exactly twenty chars'', '' this one has twenty-1'', '' ok''] \<and>
   \<not> isBoundary (CHR ''e'')"
proof -
  have e: "splitOnRuns isBoundary ''exactly twenty chars. this one has twenty-1! ok'' =
      [''exactly twenty chars'', '' this one has twenty-1'', '' ok'']"
    by code_simp
  have s: "segment_spec 21 ''exactly twenty chars. this one has twenty-1! ok'' =
      [''this one has twenty-1'']"
    by code_simp
  show ?thesis
    using C2_segmenter_keeps_longer_than_20 [of "''exactly twenty chars. this one has twenty-1! ok''"]
    by (simp add: e s)
qed

text \<open>
  The claim as stated keeps a trimmed piece of exactly 20 characters; the segmenter
  drops it.
\<close>

theorem C2_piece_of_length_20_dropped:
  "length ''exactly twenty chars'' = 20 \<and>
   segment_spec 20 ''exactly twenty chars.'' = [''exactly twenty chars''] \<and>
   splitIntoSentences ''exactly twenty chars.'' = []"
  by code_simp

subsection \<open>Segment matcher\<close>

lemma occursAt_0: "occursAt s pat 0 = (take (length pat) s = pat)"
  by (simp add: occursAt_def)

lemma occursAt_Suc: "occursAt (c # cs) pat (Suc j) = occursAt cs pat j"
  by (simp add: occursAt_def)

lemma occursAt_Nil: "occursAt [] pat j = (pat = [] \<and> j = 0)"
  by (auto simp: occursAt_def)

lemma occursAt_append: "occursAt (pre @ pat @ post) pat (length pre)"
  by (simp add: occursAt_def)

lemma occursAt_bound: "occursAt s pat j \<Longrightarrow> j + length pat \<le> length s"
proof -
  assume a: "occursAt s pat j"
  then have "length (take (length pat) (drop j s)) = length pat" by (simp add: occursAt_def)
  then show ?thesis using a by (simp add: occursAt_def min_def split: if_splits)
qed

lemma indexOfFrom_spec:
  "(indexOfFrom k s pat = - 1 \<and> (\<forall>j. \<not> occursAt s pat j)) \<or>
   (\<exists>j. indexOfFrom k s pat = int (k + j) \<and> occursAt s pat j \<and> (\<forall>i<j. \<not> occursAt s pat i))"
proof (induction s arbitrary: k)
  case Nil
  then show ?case by (auto simp: occursAt_Nil)
next
  case (Cons c cs)
  show ?case
  proof (cases "take (length pat) (c # cs) = pat")
    case True
    then have "indexOfFrom k (c # cs) pat = int (k + 0) \<and> occursAt (c # cs) pat 0"
      by (simp add: occursAt_0 del: take_Suc_Cons)
    then show ?thesis by blast
  next
    case False
    then have step: "indexOfFrom k (c # cs) pat = indexOfFrom (Suc k) cs pat"
      by (simp del: take_Suc_Cons)
    have no0: "\<not> occursAt (c # cs) pat 0" using False by (simp add: occursAt_0)
    from Cons [of "Suc k"] show ?thesis
    proof
      assume a: "indexOfFrom (Suc k) cs pat = - 1 \<and> (\<forall>j. \<not> occursAt cs pat j)"
      have "\<not> occursAt (c # cs) pat j" for j
        using a no0 by (cases j) (auto simp: occursAt_Suc)
      with a step show ?thesis by simp
    next
      assume "\<exists>j. indexOfFrom (Suc k) cs pat = int (Suc k + j) \<and> occursAt cs pat j \<and>
                (\<forall>i<j. \<not> occursAt cs pat i)"
      then obtain j where j: "indexOfFrom (Suc k) cs pat = int (Suc k + j)"
        "occursAt cs pat j" "\<forall>i<j. \<not> occursAt cs pat i" by blast
      have "\<not> occursAt (c # cs) pat i" if "i < Suc j" for i
        using that j(3) no0 by (cases i) (auto simp: occursAt_Suc)
      moreover have "indexOfFrom k (c # cs) pat = int (k + Suc j)"
        using step j(1) by simp
      moreover have "occursAt (c # cs) pat (Suc j)" using j(2) by (simp add: occursAt_Suc)
      ultimately show ?thesis by blast
    qed
  qed
qed

lemma indexOf_cases:
  "(indexOf s pat = - 1 \<and> (\<forall>j. \<not> occursAt s pat j)) \<or>
   (\<exists>j. indexOf s pat = int j \<and> occursAt s pat j \<and> (\<forall>i<j. \<not> occursAt s pat i))"
  using indexOfFrom_spec [of 0 s pat] by (simp add: indexOf_def)

lemma indexOf_found:
  assumes "s = pre @ pat @ post"
  shows "\<exists>j. indexOf s pat = int j \<and> occursAt s pat j \<and> (\<forall>i<j. \<not> occursAt s pat i)"
  using indexOf_cases [of s pat] occursAt_append [of pre pat post] assms by auto

lemma splitLoop_part:
  "p \<in> set (splitLoop sep piece s) \<Longrightarrow> \<exists>pre post. piece @ s = pre @ p @ post"
proof (induction sep piece s rule: splitLoop.induct)
  case (1 sep piece)
  then have "piece @ [] = [] @ p @ []" by simp
  then show ?case by blast
next
  case (2 sep piece c cs)
  show ?case
  proof (cases "sep c")
    case True
    with 2(3) have "p = piece \<or> p \<in> set (splitLoop sep [] (dropWhile sep cs))" by simp
    then show ?thesis
    proof
      assume "p = piece"
      then have "piece @ c # cs = [] @ p @ (c # cs)" by simp
      then show ?thesis by blast
    next
      assume "p \<in> set (splitLoop sep [] (dropWhile sep cs))"
      from 2(1) [OF True this] obtain pre post where "dropWhile sep cs = pre @ p @ post"
        by auto
      then have "piece @ c # cs = (piece @ c # takeWhile sep cs @ pre) @ p @ post"
        by (metis append.assoc append_Cons takeWhile_dropWhile_id)
      then show ?thesis by blast
    qed
  next
    case False
    with 2(3) have "p \<in> set (splitLoop sep (piece @ [c]) cs)" by simp
    from 2(2) [OF False this] show ?thesis by simp
  qed
qed

lemma split_re_part: "p \<in> set (split_re sep s) \<Longrightarrow> \<exists>pre post. s = pre @ p @ post"
proof (cases "s = []")
  case True
  assume "p \<in> set (split_re sep s)"
  with True have "s = [] @ p @ []" by (simp add: split_re_def)
  then show ?thesis by blast
next
  case False
  assume "p \<in> set (split_re sep s)"
  with False have "p \<in> set (splitLoop sep [] s)" by (simp add: split_re_def)
  from splitLoop_part [OF this] show ?thesis by simp
qed

lemma sentence_part:
  assumes "sentence \<in> set (splitIntoSentences t)"
  shows "\<exists>pre post. t = pre @ sentence @ post" and "20 < length sentence"
proof -
  from assms obtain p where p: "p \<in> set (split_re isBoundary t)" and s: "sentence = trim p"
    and len: "20 < length sentence"
    by (auto simp: splitIntoSentences_def)
  from split_re_part [OF p] obtain pre post where 1: "t = pre @ p @ post" by blast
  from trim_decomp [of p] obtain pre' post' where 2: "p = pre' @ trim p @ post'" by blast
  have "t = (pre @ pre') @ sentence @ (post' @ post)"
    using 1 2 s by (metis append.assoc)
  then show "\<exists>pre post. t = pre @ sentence @ post" by blast
  show "20 < length sentence" by (rule len)
qed

lemma comparedLoop_sound:
  "seg \<in> set (comparedLoop originalText cid threshold sentence ns cs matches) \<Longrightarrow>
   seg \<in> set matches \<or>
   (indexOf originalText sentence \<noteq> - 1 \<and>
    seg = \<lparr>text_seg = sentence, startIndex = indexOf originalText sentence,
           endIndex = indexOf originalText sentence + int (length sentence),
           matchedSubmissionId = cid\<rparr>)"
proof (induction cs arbitrary: matches)
  case Nil
  then show ?case by simp
next
  case (Cons c cs)
  from Cons.prems show ?case
    by (auto simp: Let_def split: if_splits dest!: Cons.IH)
qed

lemma originalLoop_sound:
  "seg \<in> set (originalLoop originalText cid threshold cs sentences matches) \<Longrightarrow>
   seg \<in> set matches \<or>
   (\<exists>sentence\<in>set sentences. indexOf originalText sentence \<noteq> - 1 \<and>
    seg = \<lparr>text_seg = sentence, startIndex = indexOf originalText sentence,
           endIndex = indexOf originalText sentence + int (length sentence),
           matchedSubmissionId = cid\<rparr>)"
proof (induction sentences arbitrary: matches)
  case Nil
  then show ?case by simp
next
  case (Cons s sentences)
  from Cons.prems have "seg \<in> set (originalLoop originalText cid threshold cs sentences
      (comparedLoop originalText cid threshold s (normalizeText s) cs matches))"
    by (simp add: Let_def)
  from Cons.IH [OF this] show ?case
    by (auto dest: comparedLoop_sound)
qed

lemma findMatchingSegments_sound:
  assumes "seg \<in> set (findMatchingSegments originalText comparedText cid threshold)"
  shows "\<exists>sentence\<in>set (splitIntoSentences originalText).
     seg = \<lparr>text_seg = sentence, startIndex = indexOf originalText sentence,
           endIndex = indexOf originalText sentence + int (length sentence),
           matchedSubmissionId = cid\<rparr>"
  using originalLoop_sound [of seg originalText cid threshold
      "splitIntoSentences comparedText" "splitIntoSentences originalText" "[]"] assms
  by (auto simp: findMatchingSegments_def Let_def)

lemma sentence_located:
  assumes "sentence \<in> set (splitIntoSentences t)"
  shows "\<exists>j. indexOf t sentence = int j \<and> occursAt t sentence j \<and>
     (\<forall>i<j. \<not> occursAt t sentence i) \<and> j + length sentence \<le> length t \<and>
     20 < length sentence"
proof -
  from sentence_part [OF assms] obtain pre post where "t = pre @ sentence @ post"
    and len: "20 < length sentence" by blast
  from indexOf_found [OF this(1)] obtain j where j: "indexOf t sentence = int j"
    "occursAt t sentence j" "\<forall>i<j. \<not> occursAt t sentence i" by blast
  from occursAt_bound [OF j(2)] j len show ?thesis by blast
qed

text \<open>
  Claim C4. Every segment the matcher returns lies inside the original text and is not
  empty, and \<^verbatim>\<open>indexOf\<close> finds every sentence of the original text, so the branch for
  \<^verbatim>\<open>-1\<close> is never taken.
\<close>

theorem C4_segments_in_range:
  "(\<forall>seg\<in>set (findMatchingSegments originalText comparedText comparedSubmissionId threshold).
      0 \<le> startIndex seg \<and> startIndex seg < endIndex seg \<and>
      endIndex seg \<le> int (length originalText)) \<and>
   (\<forall>sentence\<in>set (splitIntoSentences originalText). indexOf originalText sentence \<noteq> - 1)"
proof (intro conjI ballI)
  fix seg
  assume "seg \<in> set (findMatchingSegments originalText comparedText comparedSubmissionId threshold)"
  from findMatchingSegments_sound [OF this] obtain sentence where
    s: "sentence \<in> set (splitIntoSentences originalText)" and
    seg: "seg = \<lparr>text_seg = sentence, startIndex = indexOf originalText sentence,
           endIndex = indexOf originalText sentence + int (length sentence),
           matchedSubmissionId = comparedSubmissionId\<rparr>" by blast
  from sentence_located [OF s] obtain j where "indexOf originalText sentence = int j"
    "j + length sentence \<le> length originalText" "20 < length sentence" by blast
  with seg show "0 \<le> startIndex seg" "startIndex seg < endIndex seg"
    "endIndex seg \<le> int (length originalText)" by auto
next
  fix sentence
  assume "sentence \<in> set (splitIntoSentences originalText)"
  from sentence_located [OF this] show "indexOf originalText sentence \<noteq> - 1" by auto
qed

text \<open>
  Claim C6. The text of a returned segment is the part of the original text between its
  two offsets, and its start is the first position at which that text occurs.
\<close>

theorem C6_first_occurrence:
  assumes "seg \<in> set (findMatchingSegments originalText comparedText comparedSubmissionId threshold)"
  shows "text_seg seg = substring originalText (startIndex seg) (endIndex seg) \<and>
    0 \<le> startIndex seg \<and>
    startIndex seg = indexOf originalText (text_seg seg) \<and>
    occursAt originalText (text_seg seg) (nat (startIndex seg)) \<and>
    (\<forall>j<nat (startIndex seg). \<not> occursAt originalText (text_seg seg) j)"
proof -
  from findMatchingSegments_sound [OF assms] obtain sentence where
    s: "sentence \<in> set (splitIntoSentences originalText)" and
    seg: "seg = \<lparr>text_seg = sentence, startIndex = indexOf originalText sentence,
           endIndex = indexOf originalText sentence + int (length sentence),
           matchedSubmissionId = comparedSubmissionId\<rparr>" by blast
  from sentence_located [OF s] obtain j where j: "indexOf originalText sentence = int j"
    "occursAt originalText sentence j" "\<forall>i<j. \<not> occursAt originalText sentence i" by blast
  have "substring originalText (int j) (int j + int (length sentence)) = sentence"
    using j(2) by (simp add: substring_def occursAt_def nat_add_distrib)
  with seg j show ?thesis by simp
qed

lemma example_one:
  "findMatchingSegments ''Intro. The quick brown fox jumps over it! Yes.''
     ''the quick, brown fox jumps over it'' ''p1'' defaultThreshold =
   [\<lparr>text_seg = ''The quick brown fox jumps over it'', startIndex = 7, endIndex = 40,
     matchedSubmissionId = ''p1''\<rparr>]"
  by code_simp

lemma example_one_sentences:
  "splitIntoSentences ''Intro. The quick brown fox jumps over it! Yes.'' =
     [''The quick brown fox jumps over it'']"
  by code_simp

lemma example_two:
  "findMatchingSegments ''The quick brown fox jumps. The quick brown fox jumps.''
     ''the quick brown fox jumps'' ''p1'' defaultThreshold =
   [\<lparr>text_seg = ''The quick brown fox jumps'', startIndex = 0, endIndex = 25,
     matchedSubmissionId = ''p1''\<rparr>,
    \<lparr>text_seg = ''The quick brown fox jumps'', startIndex = 0, endIndex = 25,
     matchedSubmissionId = ''p1''\<rparr>]"
  by code_simp

theorem C4_segments_in_range_example:
  "findMatchingSegments ''Intro. The quick brown fox jumps over it! Yes.''
     ''the quick, brown fox jumps over it'' ''p1'' defaultThreshold =
   [\<lparr>text_seg = ''The quick brown fox jumps over it'', startIndex = 7, endIndex = 40,
     matchedSubmissionId = ''p1''\<rparr>] \<and>
   (0::int) \<le> 7 \<and> (7::int) < 40 \<and>
   (40::int) \<le> int (length ''Intro. The quick brown fox jumps over it! Yes.'') \<and>
   indexOf ''Intro. The quick brown fox jumps over it! Yes.''
     ''The quick brown fox jumps over it'' \<noteq> - 1"
  using C4_segments_in_range [of "''Intro. The quick brown fox jumps over it! Yes.''"
      "''the quick, brown fox jumps over it''" "''p1''" defaultThreshold]
  by (simp add: example_one example_one_sentences)

text \<open>A sentence that occurs twice: both matches are placed at the first occurrence.\<close>

theorem C6_first_occurrence_example:
  "findMatchingSegments ''The quick brown fox jumps. The quick brown fox jumps.''
     ''the quick brown fox jumps'' ''p1'' defaultThreshold =
   [\<lparr>text_seg = ''The quick brown fox jumps'', startIndex = 0, endIndex = 25,
     matchedSubmissionId = ''p1''\<rparr>,
    \<lparr>text_seg = ''The quick brown fox jumps'', startIndex = 0, endIndex = 25,
     matchedSubmissionId = ''p1''\<rparr>] \<and>
   occursAt ''The quick brown fox jumps. The quick brown fox jumps.''
     ''The quick brown fox jumps'' 27 \<and>
   occursAt ''The quick brown fox jumps. The quick brown fox jumps.''
     ''The quick brown fox jumps'' 0 \<and>
   substring ''The quick brown fox jumps. The quick brown fox jumps.'' 0 25 =
     ''The quick brown fox jumps'' \<and>
   indexOf ''The quick brown fox jumps. The quick brown fox jumps.''
     ''The quick brown fox jumps'' = 0"
proof -
  let ?t = "''The quick brown fox jumps. The quick brown fox jumps.''"
  let ?seg = "\<lparr>text_seg = ''The quick brown fox jumps'', startIndex = 0, endIndex = 25,
        matchedSubmissionId = ''p1''\<rparr>"
  have mem: "?seg \<in> set (findMatchingSegments ?t ''the quick brown fox jumps'' ''p1''
      defaultThreshold)"
    by (simp add: example_two)
  have sel: "text_seg ?seg = ''The quick brown fox jumps''" "startIndex ?seg = 0"
    "endIndex ?seg = 25"
    by simp_all
  note first = C6_first_occurrence [OF mem, unfolded sel]
  have occ: "occursAt ?t ''The quick brown fox jumps'' 27"
    by (simp add: occursAt_def)
  have sub: "substring ?t 0 25 = ''The quick brown fox jumps''"
    by (rule first [THEN conjunct1, symmetric])
  have idx: "indexOf ?t ''The quick brown fox jumps'' = 0"
    by (rule first [THEN conjunct2, THEN conjunct2, THEN conjunct1, symmetric])
  have "occursAt ?t ''The quick brown fox jumps'' (nat 0)"
    by (rule first [THEN conjunct2, THEN conjunct2, THEN conjunct2, THEN conjunct1])
  then have occ0: "occursAt ?t ''The quick brown fox jumps'' 0"
    by (simp only: nat_0)
  show ?thesis
    by (simp only: example_two occ sub idx occ0 simp_thms)
qed

subsection \<open>Segment merger\<close>

lemma extendLast_simps [simp]:
  "startIndex (extendLast l c) = startIndex l"
  "endIndex (extendLast l c) = max (endIndex l) (endIndex c)"
  "matchedSubmissionId (extendLast l c) = matchedSubmissionId l"
  "text_seg (extendLast l c) = text_seg l @ '' '' @ text_seg c"
  by (simp_all add: extendLast_def)

lemma mergeLoop_mergeFrom: "mergeLoop (ini @ [l]) rest = ini @ mergeFrom l rest"
proof (induction rest arbitrary: ini l)
  case Nil
  show ?case by simp
next
  case (Cons c rest)
  show ?case
  proof (cases "startIndex c \<le> endIndex l")
    case True
    then have "mergeLoop (ini @ [l]) (c # rest) = mergeLoop (ini @ [extendLast l c]) rest"
      by (simp add: Let_def)
    with True show ?thesis by (simp add: Cons.IH)
  next
    case False
    then have "mergeLoop (ini @ [l]) (c # rest) = mergeLoop ((ini @ [l]) @ [c]) rest"
      by (simp add: Let_def)
    also have "\<dots> = (ini @ [l]) @ mergeFrom c rest"
      by (rule Cons.IH)
    finally show ?thesis using False by simp
  qed
qed

lemma mergeOverlappingSegments_Nil: "mergeOverlappingSegments [] = []"
  by (simp add: mergeOverlappingSegments_def)

lemma mergeOverlappingSegments_mergeFrom:
  assumes "segs \<noteq> []"
  shows "\<exists>h t. sort_key startIndex segs = h # t \<and> mergeOverlappingSegments segs = mergeFrom h t"
proof -
  have "sort_key startIndex segs \<noteq> []"
    using assms by (metis length_sort length_0_conv)
  then obtain h t where ht: "sort_key startIndex segs = h # t"
    by (cases "sort_key startIndex segs") auto
  have "mergeOverlappingSegments segs = mergeLoop ([] @ [h]) t"
    using assms ht by (simp add: mergeOverlappingSegments_def)
  also have "\<dots> = [] @ mergeFrom h t"
    by (rule mergeLoop_mergeFrom)
  finally have "mergeOverlappingSegments segs = mergeFrom h t"
    by simp
  with ht show ?thesis
    by (intro exI conjI)
qed

lemma starts_mergeFrom:
  "startIndex ` set (mergeFrom l rest) \<subseteq> startIndex ` set (l # rest)"
proof (induction rest arbitrary: l)
  case Nil
  show ?case by simp
next
  case (Cons c rest)
  show ?case
  proof (cases "startIndex c \<le> endIndex l")
    case True
    have "startIndex ` set (mergeFrom (extendLast l c) rest)
        \<subseteq> startIndex ` set (extendLast l c # rest)"
      by (rule Cons.IH)
    with True show ?thesis by auto
  next
    case False
    have "startIndex ` set (mergeFrom c rest) \<subseteq> startIndex ` set (c # rest)"
      by (rule Cons.IH)
    with False show ?thesis by auto
  qed
qed

lemma hd_mergeFrom: "startIndex (hd (mergeFrom l rest)) = startIndex l"
  by (induction rest arbitrary: l) auto

lemma span_extendLast:
  "startIndex l \<le> startIndex c \<Longrightarrow> startIndex c \<le> endIndex l \<Longrightarrow>
   span (extendLast l c) = span l \<union> span c"
  by (auto simp: span_def)

lemma spans_mergeFrom:
  "sorted (map startIndex (l # rest)) \<Longrightarrow>
   (\<Union>m\<in>set (mergeFrom l rest). span m) = span l \<union> (\<Union>m\<in>set rest. span m)"
proof (induction rest arbitrary: l)
  case Nil
  then show ?case by simp
next
  case (Cons c rest)
  show ?case
  proof (cases "startIndex c \<le> endIndex l")
    case True
    have "sorted (map startIndex (extendLast l c # rest))"
      using Cons.prems by auto
    from Cons.IH [OF this] True Cons.prems show ?thesis
      by (simp add: span_extendLast Un_assoc)
  next
    case False
    have "sorted (map startIndex (c # rest))" using Cons.prems by simp
    from Cons.IH [OF this] False show ?thesis by simp
  qed
qed

lemma gaps_mergeFrom:
  "sorted (map startIndex (l # rest)) \<Longrightarrow>
   sorted_wrt (\<lambda>a b. endIndex a < startIndex b) (mergeFrom l rest)"
proof (induction rest arbitrary: l)
  case Nil
  then show ?case by simp
next
  case (Cons c rest)
  show ?case
  proof (cases "startIndex c \<le> endIndex l")
    case True
    have "sorted (map startIndex (extendLast l c # rest))"
      using Cons.prems by auto
    from Cons.IH [OF this] True show ?thesis by simp
  next
    case False
    have s: "sorted (map startIndex (c # rest))" using Cons.prems by simp
    have "endIndex l < startIndex b" if "b \<in> set (mergeFrom c rest)" for b
    proof -
      from that starts_mergeFrom [of c rest] have "startIndex b \<in> startIndex ` set (c # rest)"
        by blast
      then have "startIndex c \<le> startIndex b" using s by auto
      with False show ?thesis by simp
    qed
    with Cons.IH [OF s] False show ?thesis by simp
  qed
qed

lemma sorted_mergeFrom:
  "sorted (map startIndex (l # rest)) \<Longrightarrow> sorted (map startIndex (mergeFrom l rest))"
proof (induction rest arbitrary: l)
  case Nil
  then show ?case by simp
next
  case (Cons c rest)
  show ?case
  proof (cases "startIndex c \<le> endIndex l")
    case True
    have "sorted (map startIndex (extendLast l c # rest))"
      using Cons.prems by auto
    from Cons.IH [OF this] True show ?thesis by simp
  next
    case False
    have s: "sorted (map startIndex (c # rest))" using Cons.prems by simp
    have "startIndex l \<le> startIndex b" if "b \<in> set (mergeFrom c rest)" for b
    proof -
      from that starts_mergeFrom [of c rest] have "startIndex b \<in> startIndex ` set (c # rest)"
        by blast
      then show ?thesis using Cons.prems by auto
    qed
    with Cons.IH [OF s] False show ?thesis by auto
  qed
qed

text \<open>
  Claim C3. The merger maps the empty list to the empty list; its output is sorted by
  start offset, its spans are pairwise disjoint, and together they cover exactly what the
  spans of the input cover.
\<close>

theorem C3_merge_sorted_disjoint_cover:
  "mergeOverlappingSegments [] = [] \<and>
   sorted (map startIndex (mergeOverlappingSegments segments)) \<and>
   sorted_wrt (\<lambda>a b. span a \<inter> span b = {}) (mergeOverlappingSegments segments) \<and>
   (\<Union>m\<in>set (mergeOverlappingSegments segments). span m) = (\<Union>m\<in>set segments. span m)"
proof (cases "segments = []")
  case True
  then show ?thesis by (simp add: mergeOverlappingSegments_Nil)
next
  case False
  from mergeOverlappingSegments_mergeFrom [OF this] obtain h t where
    ht: "sort_key startIndex segments = h # t" and
    m: "mergeOverlappingSegments segments = mergeFrom h t" by blast
  have s: "sorted (map startIndex (h # t))"
    using sorted_sort_key [of startIndex segments] ht by simp
  have set: "set (h # t) = set segments"
    using set_sort [of startIndex segments] ht by simp
  have 1: "sorted (map startIndex (mergeOverlappingSegments segments))"
    unfolding m using s by (rule sorted_mergeFrom)
  have "sorted_wrt (\<lambda>a b. endIndex a < startIndex b) (mergeOverlappingSegments segments)"
    unfolding m using s by (rule gaps_mergeFrom)
  then have 2: "sorted_wrt (\<lambda>a b. span a \<inter> span b = {}) (mergeOverlappingSegments segments)"
    by (rule sorted_wrt_mono_rel [rotated]) (auto simp: span_def)
  have "(\<Union>m\<in>set (mergeOverlappingSegments segments). span m) = (\<Union>m\<in>set (h # t). span m)"
    unfolding m using spans_mergeFrom [OF s] by simp
  then have 3: "(\<Union>m\<in>set (mergeOverlappingSegments segments). span m) =
      (\<Union>m\<in>set segments. span m)"
    by (simp only: set)
  from 1 2 3 show ?thesis by (simp add: mergeOverlappingSegments_Nil)
qed

lemma bounds_mergeFrom:
  "s \<le> startIndex l \<and> startIndex l \<le> endIndex l \<and> endIndex l \<le> e \<Longrightarrow>
   \<forall>x\<in>set rest. s \<le> startIndex x \<and> startIndex x \<le> endIndex x \<and> endIndex x \<le> e \<Longrightarrow>
   m \<in> set (mergeFrom l rest) \<Longrightarrow>
   s \<le> startIndex m \<and> startIndex m \<le> endIndex m \<and> endIndex m \<le> e"
proof (induction rest arbitrary: l)
  case Nil
  then show ?case by simp
next
  case (Cons c rest)
  have c: "s \<le> startIndex c \<and> startIndex c \<le> endIndex c \<and> endIndex c \<le> e"
    using Cons.prems(2) by simp
  have rest: "\<forall>x\<in>set rest. s \<le> startIndex x \<and> startIndex x \<le> endIndex x \<and> endIndex x \<le> e"
    using Cons.prems(2) by simp
  show ?case
  proof (cases "startIndex c \<le> endIndex l")
    case True
    with Cons.prems(3) have mem: "m \<in> set (mergeFrom (extendLast l c) rest)" by simp
    have "s \<le> startIndex (extendLast l c) \<and>
        startIndex (extendLast l c) \<le> endIndex (extendLast l c) \<and>
        endIndex (extendLast l c) \<le> e"
      using Cons.prems(1) c by auto
    from Cons.IH [OF this rest mem] show ?thesis .
  next
    case False
    with Cons.prems(3) have "m = l \<or> m \<in> set (mergeFrom c rest)" by simp
    then show ?thesis
    proof
      assume "m = l"
      with Cons.prems(1) show ?thesis by simp
    next
      assume "m \<in> set (mergeFrom c rest)"
      from Cons.IH [OF c rest this] show ?thesis .
    qed
  qed
qed

text \<open>
  Claim C7, as amended. When the segments are well formed, lie inside \<open>[s, e)\<close> and their
  spans together cover \<open>[s, e)\<close>, which is not empty, the merger returns one span, from
  \<open>s\<close> to \<open>e\<close>.
\<close>

theorem C7_one_span_when_covered:
  assumes cover: "(\<Union>x\<in>set segments. span x) = {s..<e}"
    and se: "s < e"
    and inside: "\<forall>x\<in>set segments. s \<le> startIndex x \<and> startIndex x \<le> endIndex x \<and> endIndex x \<le> e"
  shows "\<exists>m. mergeOverlappingSegments segments = [m] \<and> startIndex m = s \<and> endIndex m = e"
proof -
  have ne: "segments \<noteq> []"
  proof
    assume "segments = []"
    with cover have "{s..<e} = {}" by simp
    with se show False by simp
  qed
  from mergeOverlappingSegments_mergeFrom [OF ne] obtain h t where
    ht: "sort_key startIndex segments = h # t" and
    m: "mergeOverlappingSegments segments = mergeFrom h t" by blast
  have srt: "sorted (map startIndex (h # t))"
    using sorted_sort_key [of startIndex segments] ht by simp
  have set: "set (h # t) = set segments"
    using set_sort [of startIndex segments] ht by simp
  have gaps: "sorted_wrt (\<lambda>a b. endIndex a < startIndex b) (mergeFrom h t)"
    using srt by (rule gaps_mergeFrom)
  have "(\<Union>x\<in>set (mergeFrom h t). span x) = (\<Union>x\<in>set (h # t). span x)"
    using spans_mergeFrom [OF srt] by simp
  then have un: "(\<Union>x\<in>set (mergeFrom h t). span x) = {s..<e}"
    using cover by (simp only: set)
  have all: "\<forall>x\<in>set (h # t). s \<le> startIndex x \<and> startIndex x \<le> endIndex x \<and> endIndex x \<le> e"
    using inside set by blast
  have bounds: "s \<le> startIndex x \<and> startIndex x \<le> endIndex x \<and> endIndex x \<le> e"
    if "x \<in> set (mergeFrom h t)" for x
    using all that by (intro bounds_mergeFrom [of s h e t x]) simp_all
  obtain a rest where out: "mergeFrom h t = a # rest"
    using un se by (cases "mergeFrom h t") auto
  have "rest = []"
  proof (rule ccontr)
    assume "rest \<noteq> []"
    then obtain b rest' where r: "rest = b # rest'" by (cases rest) auto
    have later: "endIndex a < startIndex x" if "x \<in> set rest" for x
      using gaps out that by simp
    have ba: "s \<le> startIndex a \<and> startIndex a \<le> endIndex a" using bounds out by simp
    have bb: "startIndex b \<le> e" using bounds [of b] out r by simp
    have "endIndex a < startIndex b" using later r by simp
    with ba bb have "endIndex a \<in> {s..<e}" by simp
    with un obtain x where x: "x \<in> set (mergeFrom h t)" "endIndex a \<in> span x" by blast
    from x(1) out have "x = a \<or> x \<in> set rest" by simp
    then show False
    proof
      assume "x = a"
      with x(2) show False by (simp add: span_def)
    next
      assume "x \<in> set rest"
      from later [OF this] x(2) show False by (simp add: span_def)
    qed
  qed
  with out un have sp: "{startIndex a..<endIndex a} = {s..<e}" by (simp add: span_def)
  with se have "startIndex a < endIndex a" by (metis atLeastLessThan_empty_iff2 not_le)
  with sp se have "startIndex a = s \<and> endIndex a = e"
    by (simp add: atLeastLessThan_eq_iff)
  with out \<open>rest = []\<close> show ?thesis by (simp add: m)
qed

lemma traceLoop_traceFrom: "traceLoop (ini @ [(l, g)]) rest = ini @ traceFrom l g rest"
proof (induction rest arbitrary: ini l g)
  case Nil
  show ?case by simp
next
  case (Cons c rest)
  show ?case
  proof (cases "startIndex c \<le> endIndex l")
    case True
    then have "traceLoop (ini @ [(l, g)]) (c # rest) =
        traceLoop (ini @ [(extendLast l c, g @ [c])]) rest"
      by (simp add: Let_def)
    with True show ?thesis by (simp add: Cons.IH)
  next
    case False
    then have "traceLoop (ini @ [(l, g)]) (c # rest) =
        traceLoop ((ini @ [(l, g)]) @ [(c, [c])]) rest"
      by (simp add: Let_def)
    also have "\<dots> = (ini @ [(l, g)]) @ traceFrom c [c] rest"
      by (rule Cons.IH)
    finally show ?thesis using False by simp
  qed
qed

lemma fst_traceFrom: "map fst (traceFrom l g rest) = mergeFrom l rest"
  by (induction rest arbitrary: l g) simp_all

lemma snd_traceFrom: "concat (map snd (traceFrom l g rest)) = g @ rest"
  by (induction rest arbitrary: l g) simp_all

lemma id_foldl_extendLast:
  "matchedSubmissionId (foldl extendLast a xs) = matchedSubmissionId a"
  by (induction xs arbitrary: a) simp_all

lemma traceFrom_groups:
  "g \<noteq> [] \<Longrightarrow> l = foldl extendLast (hd g) (tl g) \<Longrightarrow>
   sorted (map startIndex (g @ rest)) \<Longrightarrow> (m, grp) \<in> set (traceFrom l g rest) \<Longrightarrow>
   grp \<noteq> [] \<and> m = foldl extendLast (hd grp) (tl grp) \<and> sorted (map startIndex grp)"
proof (induction rest arbitrary: l g)
  case Nil
  then show ?case by simp
next
  case (Cons c rest)
  show ?case
  proof (cases "startIndex c \<le> endIndex l")
    case True
    with Cons.prems(4) have mem: "(m, grp) \<in> set (traceFrom (extendLast l c) (g @ [c]) rest)"
      by simp
    have 1: "g @ [c] \<noteq> []" by simp
    have 2: "extendLast l c = foldl extendLast (hd (g @ [c])) (tl (g @ [c]))"
      using Cons.prems(1,2) by simp
    have 3: "sorted (map startIndex ((g @ [c]) @ rest))"
      using Cons.prems(3) by simp
    from Cons.IH [OF 1 2 3 mem] show ?thesis .
  next
    case False
    with Cons.prems(4) have "(m, grp) = (l, g) \<or> (m, grp) \<in> set (traceFrom c [c] rest)"
      by simp
    then show ?thesis
    proof
      assume "(m, grp) = (l, g)"
      moreover have "sorted (map startIndex g)"
        using Cons.prems(3) by (simp add: sorted_append)
      ultimately show ?thesis using Cons.prems(1,2) by simp
    next
      assume mem: "(m, grp) \<in> set (traceFrom c [c] rest)"
      have 1: "[c] \<noteq> []" by simp
      have 2: "c = foldl extendLast (hd [c]) (tl [c])" by simp
      have 3: "sorted (map startIndex ([c] @ rest))"
        using Cons.prems(3) by (simp add: sorted_append)
      from Cons.IH [OF 1 2 3 mem] show ?thesis .
    qed
  qed
qed

lemma coalesced_traceFrom:
  assumes "segs \<noteq> []"
  shows "\<exists>h t. sort_key startIndex segs = h # t \<and> coalesced segs = traceFrom h [h] t"
proof -
  have "sort_key startIndex segs \<noteq> []"
    using assms by (metis length_sort length_0_conv)
  then obtain h t where ht: "sort_key startIndex segs = h # t"
    by (cases "sort_key startIndex segs") auto
  have "coalesced segs = traceLoop ([] @ [(h, [h])]) t"
    using assms ht by (simp add: coalesced_def)
  also have "\<dots> = [] @ traceFrom h [h] t"
    by (rule traceLoop_traceFrom)
  finally have "coalesced segs = traceFrom h [h] t"
    by simp
  with ht show ?thesis
    by (intro exI conjI)
qed

text \<open>
  Claim C10. Every merged span is the first segment of its group, in the order of the
  stable sort, extended by the others; it carries the identifier of that segment, whose
  start offset is the least of the group.
\<close>

theorem C10_id_of_first:
  "map fst (coalesced segments) = mergeOverlappingSegments segments \<and>
   concat (map snd (coalesced segments)) = sort_key startIndex segments \<and>
   (\<forall>(m, grp)\<in>set (coalesced segments).
      grp \<noteq> [] \<and> m = foldl extendLast (hd grp) (tl grp) \<and>
      matchedSubmissionId m = matchedSubmissionId (hd grp) \<and>
      (\<forall>x\<in>set grp. startIndex (hd grp) \<le> startIndex x))"
proof (cases "segments = []")
  case True
  then show ?thesis by (simp add: coalesced_def mergeOverlappingSegments_def)
next
  case False
  from coalesced_traceFrom [OF False] obtain h t where
    ht: "sort_key startIndex segments = h # t" and c: "coalesced segments = traceFrom h [h] t"
    by blast
  from mergeOverlappingSegments_mergeFrom [OF False] ht
  have m: "mergeOverlappingSegments segments = mergeFrom h t" by auto
  have s: "sorted (map startIndex ([h] @ t))"
    using sorted_sort_key [of startIndex segments] ht by simp
  have 1: "map fst (coalesced segments) = mergeOverlappingSegments segments"
    by (simp only: c m fst_traceFrom)
  have 2: "concat (map snd (coalesced segments)) = sort_key startIndex segments"
    by (simp add: c ht snd_traceFrom)
  have 3: "grp \<noteq> [] \<and> m = foldl extendLast (hd grp) (tl grp) \<and>
      matchedSubmissionId m = matchedSubmissionId (hd grp) \<and>
      (\<forall>x\<in>set grp. startIndex (hd grp) \<le> startIndex x)"
    if "(m, grp) \<in> set (coalesced segments)" for m grp
  proof -
    from that have mem: "(m, grp) \<in> set (traceFrom h [h] t)" by (simp only: c)
    have "[h] \<noteq> []" by simp
    moreover have "h = foldl extendLast (hd [h]) (tl [h])" by simp
    ultimately have g: "grp \<noteq> [] \<and> m = foldl extendLast (hd grp) (tl grp) \<and>
        sorted (map startIndex grp)"
      using s mem by (rule traceFrom_groups)
    then obtain a as where grp: "grp = a # as" by (cases grp) auto
    with g have "\<forall>x\<in>set grp. startIndex (hd grp) \<le> startIndex x" by auto
    moreover have "matchedSubmissionId m = matchedSubmissionId (hd grp)"
      using g by (metis id_foldl_extendLast)
    ultimately show ?thesis using g by blast
  qed
  from 1 2 3 show ?thesis by blast
qed

lemma example_merged:
  "mergeOverlappingSegments exampleSegments =
     [\<lparr>text_seg = ''a d b'', startIndex = 0, endIndex = 10, matchedSubmissionId = ''p''\<rparr>,
      \<lparr>text_seg = ''c'', startIndex = 20, endIndex = 25, matchedSubmissionId = ''r''\<rparr>]"
  by (simp add: exampleSegments_def mergeOverlappingSegments_def extendLast_def)

lemma example_coalesced:
  "coalesced exampleSegments =
     [(\<lparr>text_seg = ''a d b'', startIndex = 0, endIndex = 10, matchedSubmissionId = ''p''\<rparr>,
       [\<lparr>text_seg = ''a'', startIndex = 0, endIndex = 6, matchedSubmissionId = ''p''\<rparr>,
        \<lparr>text_seg = ''d'', startIndex = 0, endIndex = 3, matchedSubmissionId = ''s''\<rparr>,
        \<lparr>text_seg = ''b'', startIndex = 5, endIndex = 10, matchedSubmissionId = ''q''\<rparr>]),
      (\<lparr>text_seg = ''c'', startIndex = 20, endIndex = 25, matchedSubmissionId = ''r''\<rparr>,
       [\<lparr>text_seg = ''c'', startIndex = 20, endIndex = 25, matchedSubmissionId = ''r''\<rparr>])]"
  by (simp add: exampleSegments_def coalesced_def extendLast_def)

theorem C3_example:
  "mergeOverlappingSegments exampleSegments =
     [\<lparr>text_seg = ''a d b'', startIndex = 0, endIndex = 10, matchedSubmissionId = ''p''\<rparr>,
      \<lparr>text_seg = ''c'', startIndex = 20, endIndex = 25, matchedSubmissionId = ''r''\<rparr>] \<and>
   (\<Union>m\<in>set exampleSegments. span m) = {0..<10} \<union> {20..<25} \<and>
   {0..<10} \<inter> {20..<25} = ({} :: int set)"
proof -
  have "(\<Union>m\<in>set (mergeOverlappingSegments exampleSegments). span m) =
      (\<Union>m\<in>set exampleSegments. span m)"
    using C3_merge_sorted_disjoint_cover [of exampleSegments] by (elim conjE)
  then have "(\<Union>m\<in>set exampleSegments. span m) = {0..<10} \<union> {20..<25}"
    by (simp add: example_merged span_def)
  then show ?thesis by (simp add: example_merged)
qed

theorem C7_one_span_when_covered_example:
  "(\<exists>m. mergeOverlappingSegments
     [\<lparr>text_seg = ''b'', startIndex = 3, endIndex = 10, matchedSubmissionId = ''q''\<rparr>,
      \<lparr>text_seg = ''a'', startIndex = 0, endIndex = 5, matchedSubmissionId = ''p''\<rparr>] = [m] \<and>
      startIndex m = 0 \<and> endIndex m = 10) \<and>
   mergeOverlappingSegments
     [\<lparr>text_seg = ''b'', startIndex = 3, endIndex = 10, matchedSubmissionId = ''q''\<rparr>,
      \<lparr>text_seg = ''a'', startIndex = 0, endIndex = 5, matchedSubmissionId = ''p''\<rparr>] =
     [\<lparr>text_seg = ''a b'', startIndex = 0, endIndex = 10, matchedSubmissionId = ''p''\<rparr>]"
proof
  have "(\<Union>x\<in>set
     [\<lparr>text_seg = ''b'', startIndex = 3, endIndex = 10, matchedSubmissionId = ''q''\<rparr>,
      \<lparr>text_seg = ''a'', startIndex = 0, endIndex = 5, matchedSubmissionId = ''p''\<rparr>].
      span x) = {0..<10}"
    by (auto simp: span_def)
  then show "\<exists>m. mergeOverlappingSegments
     [\<lparr>text_seg = ''b'', startIndex = 3, endIndex = 10, matchedSubmissionId = ''q''\<rparr>,
      \<lparr>text_seg = ''a'', startIndex = 0, endIndex = 5, matchedSubmissionId = ''p''\<rparr>] = [m] \<and>
      startIndex m = 0 \<and> endIndex m = 10"
    by (rule C7_one_span_when_covered) simp_all
next
  show "mergeOverlappingSegments
     [\<lparr>text_seg = ''b'', startIndex = 3, endIndex = 10, matchedSubmissionId = ''q''\<rparr>,
      \<lparr>text_seg = ''a'', startIndex = 0, endIndex = 5, matchedSubmissionId = ''p''\<rparr>] =
     [\<lparr>text_seg = ''a b'', startIndex = 0, endIndex = 10, matchedSubmissionId = ''p''\<rparr>]"
    by (simp add: mergeOverlappingSegments_def extendLast_def)
qed

text \<open>
  Without the cover the claim fails: two segments inside \<open>[0, 10)\<close> that do not touch
  stay two spans.
\<close>

theorem C7_contained_segments_stay_apart:
  "mergeOverlappingSegments
     [\<lparr>text_seg = ''a'', startIndex = 1, endIndex = 2, matchedSubmissionId = ''p''\<rparr>,
      \<lparr>text_seg = ''b'', startIndex = 5, endIndex = 6, matchedSubmissionId = ''q''\<rparr>] =
     [\<lparr>text_seg = ''a'', startIndex = 1, endIndex = 2, matchedSubmissionId = ''p''\<rparr>,
      \<lparr>text_seg = ''b'', startIndex = 5, endIndex = 6, matchedSubmissionId = ''q''\<rparr>] \<and>
   0 \<le> startIndex \<lparr>text_seg = ''a'', startIndex = 1, endIndex = 2, matchedSubmissionId = ''p''\<rparr> \<and>
   endIndex \<lparr>text_seg = ''a'', startIndex = 1, endIndex = 2, matchedSubmissionId = ''p''\<rparr> \<le> 10 \<and>
   0 \<le> startIndex \<lparr>text_seg = ''b'', startIndex = 5, endIndex = 6, matchedSubmissionId = ''q''\<rparr> \<and>
   endIndex \<lparr>text_seg = ''b'', startIndex = 5, endIndex = 6, matchedSubmissionId = ''q''\<rparr> \<le> 10"
  by (simp add: mergeOverlappingSegments_def)

theorem C10_id_of_first_example:
  "map matchedSubmissionId (mergeOverlappingSegments exampleSegments) = [''p'', ''r''] \<and>
   map (map matchedSubmissionId \<circ> snd) (coalesced exampleSegments) =
     [[''p'', ''s'', ''q''], [''r'']] \<and>
   map fst (coalesced exampleSegments) = mergeOverlappingSegments exampleSegments"
  using C10_id_of_first [of exampleSegments]
  by (simp add: example_merged example_coalesced)

subsection \<open>Orchestrator\<close>

lemma selectSingle_absent:
  "\<forall>s\<in>set (submissions db). sub_id s \<noteq> submissionId \<Longrightarrow> selectSingle db submissionId = None"
proof -
  assume "\<forall>s\<in>set (submissions db). sub_id s \<noteq> submissionId"
  then have "filter (\<lambda>s. sub_id s = submissionId) (submissions db) = []"
    by (simp add: filter_empty_conv)
  then show ?thesis by (simp add: selectSingle_def)
qed

text \<open>
  Claim C5. When no submission has the identifier, or the submission found has an empty
  content (the empty string, or null), the orchestrator returns the error and the store it leaves is the store it
  was given: no report row is inserted.
\<close>

theorem C5_not_found_keeps_store:
  assumes "(\<forall>s\<in>set (submissions db). sub_id s \<noteq> submissionId) \<or>
     (\<exists>row. selectSingle db submissionId = Some row \<and>
        (content row = Some [] \<or> content row = None))"
  shows "checkPlagiarism db submissionId assignmentId =
     (ErrorResult ''Submission not found or empty'', db)"
  using assms
proof
  assume "\<forall>s\<in>set (submissions db). sub_id s \<noteq> submissionId"
  then have "selectSingle db submissionId = None" by (rule selectSingle_absent)
  then show ?thesis by (simp add: checkPlagiarism_def)
next
  assume "\<exists>row. selectSingle db submissionId = Some row \<and>
      (content row = Some [] \<or> content row = None)"
  then show ?thesis by (auto simp: checkPlagiarism_def falsy_def)
qed

lemma example_run:
  "checkPlagiarism exampleStore ''s3'' ''a1'' =
     (Checked (7174 / 100)
        [\<lparr>compared_submission_id = ''s2'', similarity_score = 7174 / 100,
          matched_content =
            [\<lparr>text_seg = ''The quick brown fox jumps over it'', startIndex = 7, endIndex = 40,
              matchedSubmissionId = ''s2''\<rparr>]\<rparr>]
        [\<lparr>text_seg = ''The quick brown fox jumps over it'', startIndex = 7, endIndex = 40,
          matchedSubmissionId = ''s2''\<rparr>],
      exampleStore\<lparr>plagiarism_reports :=
        [\<lparr>compared_submission_id = ''s2'', similarity_score = 7174 / 100,
          matched_content =
            [\<lparr>text_seg = ''The quick brown fox jumps over it'', startIndex = 7, endIndex = 40,
              matchedSubmissionId = ''s2''\<rparr>],
          submission_id = ''s3''\<rparr>]\<rparr>)"
  by code_simp

text \<open>
  An empty submission, an unknown identifier, and for contrast a run that does insert a row.
\<close>

theorem C5_not_found_keeps_store_example:
  "checkPlagiarism exampleStore ''s1'' ''a1'' =
     (ErrorResult ''Submission not found or empty'', exampleStore) \<and>
   checkPlagiarism exampleStore ''s9'' ''a1'' =
     (ErrorResult ''Submission not found or empty'', exampleStore) \<and>
   plagiarism_reports (snd (checkPlagiarism exampleStore ''s3'' ''a1'')) \<noteq> []"
proof -
  have 1: "selectSingle exampleStore ''s1'' =
      Some \<lparr>sub_id = ''s1'', assignment_id = ''a1'', content = Some '''',
        status = Some Submitted\<rparr>"
    by (simp add: selectSingle_def exampleStore_def)
  have "checkPlagiarism exampleStore ''s1'' ''a1'' =
     (ErrorResult ''Submission not found or empty'', exampleStore)"
    by (rule C5_not_found_keeps_store) (simp add: 1)
  moreover have "checkPlagiarism exampleStore ''s9'' ''a1'' =
     (ErrorResult ''Submission not found or empty'', exampleStore)"
    by (rule C5_not_found_keeps_store) (simp add: exampleStore_def)
  moreover have "plagiarism_reports (snd (checkPlagiarism exampleStore ''s3'' ''a1'')) \<noteq> []"
    by (simp add: example_run)
  ultimately show ?thesis by simp
qed

end
